theory Spec2Isabelle
  imports Main "HOL-Library.Sublist"
begin

section \<open>The slide system of docs/js/slide-system.js\<close>

subsection \<open>Data model\<close>

text \<open>
  A DOM element that is a direct child of \<open>main\<close> in the static page. Only what the
  script reads is kept: \<open>tagName\<close>, \<open>classList\<close>, and an identity (\<open>ident\<close>) that tells
  two nodes with the same tag and classes apart. Equal records denote the same node.
\<close>

record element =
  tagName :: string
  classList :: "string list"
  ident :: nat

text \<open>
  A slide wrapper (\<open>div.slide\<close>): the nodes moved into it, and whether its class list
  holds \<open>active\<close>.
\<close>

record slide =
  nodes :: "element list"
  active :: bool

text \<open>
  The navigation container (\<open>div.slide-nav\<close>): the text of \<open>.slide-counter\<close> and the
  \<open>disabled\<close> property of the two buttons.
\<close>

record nav =
  counter :: string
  prevDisabled :: bool
  nextDisabled :: bool

text \<open>
  A mode button: its \<open>data-mode\<close> attribute and whether it carries \<open>active\<close>. A button
  without the attribute behaves as one whose value is not \<open>slides\<close>.
\<close>

record mode_btn =
  dataset_mode :: string
  btn_active :: bool

text \<open>
  The children of \<open>main\<close>. Elements of the page are \<open>Elem\<close>; the containers the script
  creates and appends are markers, their mutable state being held by the variables
  \<open>slides\<close>, \<open>slideNav\<close> and \<open>slideDots\<close> that reference them. The wrappers in \<open>main\<close>
  are, in order, the entries of \<open>slides\<close>.
\<close>

datatype child = Elem element | SlideDiv | NavDiv | DotsDiv

text \<open>
  The module state (\<open>currentSlide\<close>, \<open>slides\<close>, \<open>slideNav\<close>, \<open>slideDots\<close>; \<open>None\<close> is
  \<open>null\<close>) together with the parts of the page the script reads and writes: the children
  of \<open>main\<close>, the mode buttons, whether \<open>body\<close> carries \<open>slides-mode\<close>, and the value of
  \<open>window.location.hash\<close>. A dot of \<open>slideDots\<close> is its \<open>active\<close> flag; dot number \<open>i\<close>
  is the one whose click handler calls \<open>goToSlide(i)\<close>.
\<close>

record state =
  currentSlide :: int
  slides :: "slide list"
  slideNav :: "nav option"
  slideDots :: "bool list option"
  mainChildren :: "child list"
  modeBtns :: "mode_btn list"
  slidesMode :: bool
  hash :: string

subsection \<open>Helpers of the JavaScript library\<close>

text \<open>\<open>Array.prototype.findIndex\<close>; \<open>None\<close> stands for the result \<open>-1\<close>.\<close>

fun findIndex :: "('a \<Rightarrow> bool) \<Rightarrow> 'a list \<Rightarrow> nat option" where
  "findIndex P [] = None"
| "findIndex P (x # xs) =
     (if P x then Some 0 else map_option Suc (findIndex P xs))"

text \<open>
  \<open>Array.prototype.slice(start, end)\<close> for \<open>0 \<le> start\<close> and \<open>0 \<le> end \<le> length\<close>, the only
  way the script calls it; it is empty when \<open>end \<le> start\<close>.
\<close>

definition slice :: "'a list \<Rightarrow> nat \<Rightarrow> nat \<Rightarrow> 'a list" where
  "slice xs start finish = take (finish - start) (drop start xs)"

text \<open>A non-negative integer in a template literal: its decimal digits.\<close>

fun string_of_nat :: "nat \<Rightarrow> string" where
  "string_of_nat n =
     (if n < 10 then [''0123456789'' ! n]
      else string_of_nat (n div 10) @ [''0123456789'' ! (n mod 10)])"

declare string_of_nat.simps [simp del]

definition is_digit :: "char \<Rightarrow> bool" where
  "is_digit c \<longleftrightarrow> c \<in> set ''0123456789''"

definition digit_val :: "char \<Rightarrow> nat" where
  "digit_val c = of_char c - 48"

text \<open>
  \<open>parseInt\<close> on a non-empty string of decimal digits. The result of the script is a
  double, exact below \<open>2 ^ 53\<close>; above, it stays above every array length, so the
  comparison with \<open>slides.length\<close> that follows is the one made here.
\<close>

definition parseInt :: "string \<Rightarrow> nat" where
  "parseInt ds = foldl (\<lambda>a c. 10 * a + digit_val c) 0 ds"

text \<open>
  \<open>hash.match(/slide-(\d+)/)\<close>: the first capture group of the leftmost match, \<open>None\<close>
  when there is no match. The pattern is not anchored, and \<open>\d+\<close> is greedy.
\<close>

fun strip_prefix :: "string \<Rightarrow> string \<Rightarrow> string option" where
  "strip_prefix [] s = Some s"
| "strip_prefix (p # ps) [] = None"
| "strip_prefix (p # ps) (c # cs) = (if p = c then strip_prefix ps cs else None)"

fun slideMatch :: "string \<Rightarrow> string option" where
  "slideMatch [] = None"
| "slideMatch (c # cs) =
     (case strip_prefix ''slide-'' (c # cs) of
        Some rest \<Rightarrow>
          (if takeWhile is_digit rest \<noteq> [] then Some (takeWhile is_digit rest)
           else slideMatch cs)
      | None \<Rightarrow> slideMatch cs)"

text \<open>
  Assigning \<open>v\<close> to \<open>window.location.hash\<close>: a leading \<open>#\<close> of \<open>v\<close> is dropped, and the
  getter then returns the empty string for an empty fragment and \<open>#\<close> followed by the
  fragment otherwise.
\<close>

definition set_location_hash :: "string \<Rightarrow> string" where
  "set_location_hash v =
     (let fragment = (case v of c # cs \<Rightarrow> (if c = CHR ''#'' then cs else v) | [] \<Rightarrow> [])
      in if fragment = [] then [] else CHR ''#'' # fragment)"

subsection \<open>createSlides\<close>

text \<open>The filter of lines 19-24: children that carry none of the four control classes.\<close>

definition is_content :: "element \<Rightarrow> bool" where
  "is_content el \<longleftrightarrow>
     ''mode-toggle'' \<notin> set (classList el) \<and>
     ''slide-nav'' \<notin> set (classList el) \<and>
     ''slide-dots'' \<notin> set (classList el) \<and>
     ''keyboard-hint'' \<notin> set (classList el)"

text \<open>
  \<open>NavDiv\<close> and \<open>DotsDiv\<close> carry \<open>slide-nav\<close> and \<open>slide-dots\<close> and are filtered out.
  \<open>createSlides\<close> is called only when \<open>slides\<close> is empty (line 172), that is when \<open>main\<close>
  holds no wrapper of an earlier call, so a wrapper is never read as content.
\<close>

fun child_content :: "child \<Rightarrow> element list" where
  "child_content (Elem el) = (if is_content el then [el] else [])"
| "child_content SlideDiv = []"
| "child_content NavDiv = []"
| "child_content DotsDiv = []"

definition content_of :: "child list \<Rightarrow> element list" where
  "content_of cs = concat (map child_content cs)"

text \<open>Lines 37-46: what the \<open>forEach\<close> callback pushes at one index.\<close>

definition breakAt :: "element list \<Rightarrow> nat \<Rightarrow> nat list" where
  "breakAt content index =
     (let el = content ! index in
      if tagName el = ''H2'' \<or> tagName el = ''HR'' then
        (if tagName el = ''HR'' \<and> index + 1 < length content then [index + 1]
         else if tagName el = ''H2'' then [index]
         else [])
      else [])"

text \<open>Lines 28-49: \<open>slideBreakPoints\<close> when the loop of line 51 starts.\<close>

definition slideBreakPoints :: "element list \<Rightarrow> nat list" where
  "slideBreakPoints content =
     (case findIndex (\<lambda>el. tagName el = ''H1'') content of
        None \<Rightarrow> []
      | Some h1Index \<Rightarrow> [h1Index])
     @ concat (map (breakAt content) [0..<length content])
     @ [length content]"

text \<open>Lines 52-73: the slide pushed by iteration \<open>i\<close> of the loop, if any.\<close>

definition slideAt :: "element list \<Rightarrow> nat list \<Rightarrow> nat \<Rightarrow> slide list" where
  "slideAt content bps i =
     (let start = bps ! i;
          finish = bps ! (i + 1);
          slideContent = slice content start finish
      in if length slideContent > 0 \<and>
            \<not> (length slideContent = 1 \<and> tagName (slideContent ! 0) = ''HR'')
         then [\<lparr>nodes = filter (\<lambda>el. tagName el \<noteq> ''HR'') slideContent, active = False\<rparr>]
         else [])"

text \<open>Lines 51-74: the wrappers pushed onto \<open>slides\<close>, in order.\<close>

definition buildSlides :: "element list \<Rightarrow> nat list \<Rightarrow> slide list" where
  "buildSlides content bps = concat (map (slideAt content bps) [0..<length bps - 1])"

fun is_hr :: "child \<Rightarrow> bool" where
  "is_hr (Elem el) = (tagName el = ''HR'')"
| "is_hr SlideDiv = False"
| "is_hr NavDiv = False"
| "is_hr DotsDiv = False"

fun moved_into :: "element list \<Rightarrow> child \<Rightarrow> bool" where
  "moved_into moved (Elem el) = (el \<in> set moved)"
| "moved_into moved SlideDiv = False"
| "moved_into moved NavDiv = False"
| "moved_into moved DotsDiv = False"

text \<open>
  \<open>createSlides\<close>: \<open>slides\<close> is replaced by the new wrappers; the nodes moved into a
  wrapper leave \<open>main\<close>, the wrappers are appended to it, and every \<open>hr\<close> left is removed
  (line 77; an \<open>hr\<close> nested inside a content node is not part of the model).
\<close>

definition createSlides :: "state \<Rightarrow> state" where
  "createSlides s =
     (let content = content_of (mainChildren s);
          new = buildSlides content (slideBreakPoints content);
          moved = concat (map nodes new);
          kept = filter (\<lambda>c. \<not> moved_into moved c) (mainChildren s)
      in s\<lparr>slides := new,
           mainChildren := filter (\<lambda>c. \<not> is_hr c) (kept @ replicate (length new) SlideDiv)\<rparr>)"

subsection \<open>createNavigation\<close>

definition createNavigation :: "state \<Rightarrow> state" where
  "createNavigation s =
     s\<lparr>slideNav := Some \<lparr>counter = ''1 of '' @ string_of_nat (length (slides s)),
                         prevDisabled = False, nextDisabled = False\<rparr>,
       slideDots := Some (replicate (min (length (slides s)) 10) False),
       mainChildren := mainChildren s @ [NavDiv, DotsDiv]\<rparr>"

subsection \<open>Navigation\<close>

definition showSlide :: "state \<Rightarrow> int \<Rightarrow> state" where
  "showSlide s index =
     (if index < 0 \<or> index \<ge> int (length (slides s)) then s
      else
        s\<lparr>slides :=
            (let hidden = map (\<lambda>sl. sl\<lparr>active := False\<rparr>) (slides s)
             in hidden[nat index := (hidden ! nat index)\<lparr>active := True\<rparr>]),
          currentSlide := index,
          slideNav :=
            map_option (\<lambda>n. n\<lparr>counter := string_of_nat (nat (index + 1)) @ '' of '' @
                                            string_of_nat (length (slides s)),
                               prevDisabled := (index = 0),
                               nextDisabled := (index = int (length (slides s)) - 1)\<rparr>)
              (slideNav s),
          slideDots :=
            map_option (\<lambda>dots. map (\<lambda>i. int i = index) [0..<length dots]) (slideDots s),
          hash := set_location_hash (''slide-'' @ string_of_nat (nat (index + 1)))\<rparr>)"

definition nextSlide :: "state \<Rightarrow> state" where
  "nextSlide s =
     (if currentSlide s < int (length (slides s)) - 1 then showSlide s (currentSlide s + 1)
      else s)"

definition prevSlide :: "state \<Rightarrow> state" where
  "prevSlide s = (if currentSlide s > 0 then showSlide s (currentSlide s - 1) else s)"

definition goToSlide :: "state \<Rightarrow> int \<Rightarrow> state" where
  "goToSlide s index = showSlide s index"

subsection \<open>Mode buttons and the hashchange listener\<close>

text \<open>Lines 164-165: the clicked button, number \<open>k\<close>, alone becomes active.\<close>

definition activateBtn :: "nat \<Rightarrow> state \<Rightarrow> state" where
  "activateBtn k s =
     s\<lparr>modeBtns :=
         (let cleared = map (\<lambda>b. b\<lparr>btn_active := False\<rparr>) (modeBtns s)
          in cleared[k := (cleared ! k)\<lparr>btn_active := True\<rparr>])\<rparr>"

text \<open>Lines 171-175: slides and navigation are built when \<open>slides\<close> is empty.\<close>

definition initSlides :: "state \<Rightarrow> state" where
  "initSlides s = (if length (slides s) = 0 then createNavigation (createSlides s) else s)"

text \<open>Lines 178-184: the initial slide, from the hash.\<close>

definition resolveHash :: "state \<Rightarrow> state" where
  "resolveHash s =
     (case slideMatch (hash s) of
        Some digits \<Rightarrow> showSlide s (int (parseInt digits) - 1)
      | None \<Rightarrow> showSlide s 0)"

text \<open>
  The click handler of mode button number \<open>k\<close> (lines 160-189). There is no event for a
  button that does not exist.
\<close>

definition modeBtnClick :: "nat \<Rightarrow> state \<Rightarrow> state" where
  "modeBtnClick k s =
     (if k \<ge> length (modeBtns s) then s
      else
        let mode = dataset_mode (modeBtns s ! k);
            s1 = activateBtn k s
        in if mode = ''slides'' then resolveHash (initSlides (s1\<lparr>slidesMode := True\<rparr>))
           else s1\<lparr>slidesMode := False, hash := set_location_hash ''''\<rparr>)"

text \<open>The \<open>hashchange\<close> listener (lines 235-243).\<close>

definition onHashChange :: "state \<Rightarrow> state" where
  "onHashChange s =
     (if slidesMode s then
        (case slideMatch (hash s) of
           Some digits \<Rightarrow> showSlide s (int (parseInt digits) - 1)
         | None \<Rightarrow> s)
      else s)"

text \<open>
  What can happen to the page: a click on a mode button, on the previous or next button
  (they exist once a navigation container was created), on dot \<open>i\<close> (only dots that were
  created can be clicked), or a change of the fragment from outside (address bar, back and
  forward), which sets \<open>window.location.hash\<close> and notifies the listener. The keyboard
  handler (lines 193-232) calls the same functions and is left out.
\<close>

datatype event = ModeClick nat | PrevClick | NextClick | DotClick nat | FragmentChange string

fun step :: "state \<Rightarrow> event \<Rightarrow> state" where
  "step s (ModeClick k) = modeBtnClick k s"
| "step s PrevClick = (if slideNav s = None then s else prevSlide s)"
| "step s NextClick = (if slideNav s = None then s else nextSlide s)"
| "step s (DotClick i) =
     (case slideDots s of
        None \<Rightarrow> s
      | Some dots \<Rightarrow> if i < length dots then goToSlide s (int i) else s)"
| "step s (FragmentChange h) = onHashChange (s\<lparr>hash := h\<rparr>)"

definition run :: "state \<Rightarrow> event list \<Rightarrow> state" where
  "run s evs = foldl step s evs"

subsection \<open>A page\<close>

text \<open>
  The page before the first click: the given children of \<open>main\<close>, a \<open>slides\<close> and a
  \<open>docs\<close> button, and the module variables as lines 6-9 initialise them.
\<close>

definition initial :: "child list \<Rightarrow> string \<Rightarrow> state" where
  "initial cs h =
     \<lparr>currentSlide = 0, slides = [], slideNav = None, slideDots = None,
      mainChildren = cs,
      modeBtns = [\<lparr>dataset_mode = ''docs'', btn_active = True\<rparr>,
                  \<lparr>dataset_mode = ''slides'', btn_active = False\<rparr>],
      slidesMode = False, hash = h\<rparr>"

definition node :: "string \<Rightarrow> nat \<Rightarrow> element" where
  "node t i = \<lparr>tagName = t, classList = [], ident = i\<rparr>"

text \<open>The content of the scenario: H1, P, H2, P, HR, P, H2, P.\<close>

definition scenario :: "element list" where
  "scenario = [node ''H1'' 0, node ''P'' 1, node ''H2'' 2, node ''P'' 3,
               node ''HR'' 4, node ''P'' 5, node ''H2'' 6, node ''P'' 7]"

text \<open>Content that starts with a paragraph before the first heading.\<close>

definition leading :: "element list" where
  "leading = [node ''P'' 0, node ''H2'' 1, node ''P'' 2]"

text \<open>Content without any H1, H2 or HR.\<close>

definition plain :: "element list" where
  "plain = [node ''P'' 0, node ''P'' 1]"

text \<open>Content with three rules in a row.\<close>

definition rules :: "element list" where
  "rules = [node ''H2'' 0, node ''HR'' 1, node ''HR'' 2, node ''HR'' 3, node ''P'' 4]"

text \<open>The scenario page with an empty fragment, after a click on its \<open>slides\<close> button.\<close>

definition deck :: state where
  "deck = modeBtnClick 1 (initial (map Elem scenario) [])"

text \<open>The module variables as lines 6-9 leave them, on any page.\<close>

definition fresh :: "state \<Rightarrow> bool" where
  "fresh s \<longleftrightarrow>
     currentSlide s = 0 \<and> slides s = [] \<and> slideNav s = None \<and> slideDots s = None"

text \<open>
  What holds of the state after any events on a fresh page: while \<open>slides\<close> is empty,
  \<open>main\<close> holds no slide wrapper; once it is not, the navigation exists and there is one
  dot per slide, at most ten.
\<close>

definition wf_state :: "state \<Rightarrow> bool" where
  "wf_state s =
     (if slides s = [] then SlideDiv \<notin> set (mainChildren s)
      else slideNav s \<noteq> None \<and>
           map_option length (slideDots s) = Some (min (length (slides s)) 10))"

section \<open>Properties\<close>

subsection \<open>Segmentation: auxiliary facts\<close>

lemma slides_createSlides:
  "slides (createSlides s) =
     buildSlides (content_of (mainChildren s)) (slideBreakPoints (content_of (mainChildren s)))"
  by (simp add: createSlides_def Let_def)

lemma nodes_slideAt:
  "concat (map nodes (slideAt content bps i)) =
     filter (\<lambda>el. tagName el \<noteq> ''HR'') (slice content (bps ! i) (bps ! (i + 1)))"
proof (cases "slice content (bps ! i) (bps ! (i + 1))")
  case Nil
  then show ?thesis by (simp add: slideAt_def)
next
  case (Cons x xs)
  then show ?thesis by (cases xs) (simp_all add: slideAt_def)
qed

lemma nodes_buildSlides:
  "concat (map nodes (buildSlides content bps)) =
     filter (\<lambda>el. tagName el \<noteq> ''HR'')
       (concat (map (\<lambda>i. slice content (bps ! i) (bps ! (i + 1))) [0..<length bps - 1]))"
proof -
  have "concat (map nodes (concat (map f is))) = concat (map (\<lambda>i. concat (map nodes (f i))) is)"
    for f :: "nat \<Rightarrow> slide list" and "is"
    by (induction "is") simp_all
  then show ?thesis
    by (simp add: buildSlides_def nodes_slideAt filter_concat comp_def)
qed

lemma slice_append:
  "a \<le> b \<Longrightarrow> b \<le> c \<Longrightarrow> slice xs a b @ slice xs b c = slice xs a c"
proof -
  assume ab: "a \<le> b" and bc: "b \<le> c"
  have "take ((b - a) + (c - b)) (drop a xs) =
        take (b - a) (drop a xs) @ take (c - b) (drop (b - a) (drop a xs))"
    by (rule take_add)
  with ab bc show ?thesis by (simp add: slice_def)
qed

lemma slices_sorted:
  "sorted (b # bs) \<Longrightarrow>
   concat (map (\<lambda>i. slice xs ((b # bs) ! i) ((b # bs) ! (i + 1))) [0..<length bs]) =
     slice xs b (last (b # bs))"
proof (induction bs arbitrary: b)
  case Nil
  then show ?case by (simp add: slice_def)
next
  case (Cons c cs)
  have upt: "[0..<length (c # cs)] = 0 # map Suc [0..<length cs]"
    by (simp add: upt_conv_Cons map_Suc_upt del: upt_Suc)
  have "sorted (c # cs)" using Cons.prems by simp
  from Cons.IH [OF this]
  have ih: "concat (map (\<lambda>i. slice xs ((c # cs) ! i) ((c # cs) ! (i + 1))) [0..<length cs]) =
            slice xs c (last (c # cs))" .
  have le1: "b \<le> c" using Cons.prems by simp
  have "last (c # cs) \<in> set (c # cs)" by (rule last_in_set) simp
  then have le2: "c \<le> last (c # cs)" using \<open>sorted (c # cs)\<close> by auto
  have l: "last (b # c # cs) = last (c # cs)" by simp
  show ?case
    unfolding upt l using ih le1 le2 slice_append [OF le1 le2, of xs]
    by (simp add: comp_def del: last.simps)
qed


lemma findIndex_less: "findIndex P xs = Some i \<Longrightarrow> i < length xs"
  by (induction xs arbitrary: i) (auto split: if_splits)

lemma breakAt_range:
  "x \<in> set (breakAt c i) \<Longrightarrow> i \<le> x \<and> x \<le> Suc i"
  by (auto simp: breakAt_def Let_def split: if_splits)

lemma breakAt_sorted: "sorted (breakAt c i)"
  by (simp add: breakAt_def Let_def)

lemma sorted_concat_upt:
  assumes "\<And>i x. x \<in> set (g i) \<Longrightarrow> i \<le> x \<and> x \<le> Suc i" and "\<And>i. sorted (g i)"
  shows "sorted (concat (map g [0..<n])) \<and> (\<forall>x\<in>set (concat (map g [0..<n])). x \<le> n)"
proof (induction n)
  case 0
  show ?case by simp
next
  case (Suc n)
  have below: "x \<le> n" if "x \<in> set (concat (map g [0..<n]))" for x
    using that Suc by blast
  have "x \<le> y" if "x \<in> set (concat (map g [0..<n]))" and "y \<in> set (g n)" for x y
    using below [OF that(1)] assms(1) [OF that(2)] by simp
  then have "sorted (concat (map g [0..<Suc n]))"
    using Suc assms(2) [of n] by (simp add: sorted_append)
  moreover have "x \<le> Suc n" if "x \<in> set (concat (map g [0..<Suc n]))" for x
  proof -
    from that have "x \<in> set (concat (map g [0..<n])) \<or> x \<in> set (g n)" by simp
    then show ?thesis
    proof
      assume "x \<in> set (concat (map g [0..<n]))"
      from below [OF this] show ?thesis by simp
    next
      assume "x \<in> set (g n)"
      from assms(1) [OF this] show ?thesis by simp
    qed
  qed
  ultimately show ?case by blast
qed

lemma breaks_sorted:
  "sorted (concat (map (breakAt c) [0..<length c]) @ [length c])"
  using sorted_concat_upt [of "breakAt c" "length c", OF breakAt_range breakAt_sorted]
  by (simp add: sorted_append)

lemma breaks_le:
  "x \<in> set (concat (map (breakAt c) [0..<length c]) @ [length c]) \<Longrightarrow> x \<le> length c"
  using sorted_concat_upt [of "breakAt c" "length c", OF breakAt_range breakAt_sorted]
  by auto

lemma sorted_Min: "sorted (x # xs) \<Longrightarrow> Min (set (x # xs)) = x"
  by (intro Min_eqI) auto

lemma drop_as_slice: "slice xs m (length xs) = drop m xs"
  by (simp add: slice_def)

lemma nodes_from_first_break:
  fixes content :: "element list"
  defines "bps \<equiv> slideBreakPoints content"
  shows "concat (map (\<lambda>i. slice content (bps ! i) (bps ! (i + 1))) [0..<length bps - 1]) =
         drop (Min (set bps)) content"
proof -
  define bs where "bs = concat (map (breakAt content) [0..<length content]) @ [length content]"
  have srt: "sorted bs" unfolding bs_def by (rule breaks_sorted)
  have lst: "last bs = length content" unfolding bs_def by simp
  obtain b rest where bs: "bs = b # rest"
    by (cases bs) (simp_all add: bs_def)
  have tail: "concat (map (\<lambda>i. slice content (bs ! i) (bs ! (i + 1))) [0..<length bs - 1]) =
              drop b content"
    using slices_sorted [of b rest content] srt lst
    by (simp add: bs drop_as_slice del: last.simps)
  have minb: "Min (set bs) = b" using srt unfolding bs by (rule sorted_Min)
  show ?thesis
  proof (cases "findIndex (\<lambda>el. tagName el = ''H1'') content")
    case None
    then have "bps = bs" by (simp add: bps_def slideBreakPoints_def bs_def)
    then show ?thesis using tail minb by simp
  next
    case (Some h)
    then have bps: "bps = h # bs" by (simp add: bps_def slideBreakPoints_def bs_def)
    have upt: "[0..<length bps - 1] = 0 # map Suc [0..<length bs - 1]"
      by (simp add: bps bs upt_conv_Cons map_Suc_upt del: upt_Suc)
    have split: "concat (map (\<lambda>i. slice content (bps ! i) (bps ! (i + 1))) [0..<length bps - 1]) =
                 slice content h b @ drop b content"
      unfolding upt using tail by (simp add: bps comp_def bs)
    have "b \<in> set bs" by (simp add: bs)
    then have "b \<le> length content" unfolding bs_def by (rule breaks_le)
    show ?thesis
    proof (cases "h \<le> b")
      case True
      have "slice content h b @ slice content b (length content) = slice content h (length content)"
        using True \<open>b \<le> length content\<close> by (rule slice_append)
      moreover have "Min (set bps) = h"
        using True srt unfolding bps bs by (intro Min_eqI) auto
      ultimately show ?thesis using split by (simp add: drop_as_slice)
    next
      case False
      then have "slice content h b = []" by (simp add: slice_def)
      moreover have "Min (set bps) = b"
        using False srt unfolding bps bs by (intro Min_eqI) auto
      ultimately show ?thesis using split by simp
    qed
  qed
qed

lemma nodes_createSlides:
  "concat (map nodes (slides (createSlides s))) =
     filter (\<lambda>el. tagName el \<noteq> ''HR'')
       (drop (Min (set (slideBreakPoints (content_of (mainChildren s)))))
          (content_of (mainChildren s)))"
  by (simp only: slides_createSlides nodes_buildSlides nodes_from_first_break)


lemma findIndex_None: "\<forall>x\<in>set xs. \<not> P x \<Longrightarrow> findIndex P xs = None"
  by (induction xs) simp_all

lemma no_signal_breakpoints:
  assumes "\<forall>e\<in>set content. tagName e \<noteq> ''H1'' \<and> tagName e \<noteq> ''H2'' \<and> tagName e \<noteq> ''HR''"
  shows "slideBreakPoints content = [length content]"
proof -
  have "findIndex (\<lambda>e. tagName e = ''H1'') content = None"
    using assms by (intro findIndex_None) simp
  moreover have "breakAt content i = []" if "i < length content" for i
    using assms nth_mem [OF that] by (simp add: breakAt_def Let_def)
  then have "concat (map (breakAt content) [0..<length content]) = []"
    by simp
  ultimately show ?thesis by (simp add: slideBreakPoints_def)
qed

lemma createSlides_no_signal:
  assumes "\<forall>e\<in>set (content_of (mainChildren s)).
             tagName e \<noteq> ''H1'' \<and> tagName e \<noteq> ''H2'' \<and> tagName e \<noteq> ''HR''"
  shows "slides (createSlides s) = []"
  by (simp add: slides_createSlides no_signal_breakpoints [OF assms] buildSlides_def)

lemma hr_break:
  assumes "tagName (c ! p) = ''HR''" and "Suc p < length c"
  shows "Suc p \<in> set (concat (map (breakAt c) [0..<length c]))"
proof -
  have "Suc p \<in> set (breakAt c p)" using assms by (simp add: breakAt_def Let_def)
  moreover have "p \<in> set [0..<length c]" using assms by simp
  ultimately show ?thesis by (auto simp del: upt_Suc)
qed

lemma sorted_gap:
  assumes "sorted xs" and "Suc i < length xs" and "y \<in> set xs" and "xs ! i < y"
  shows "xs ! Suc i \<le> y"
proof -
  from assms(3) obtain j where j: "j < length xs" "xs ! j = y"
    by (auto simp: in_set_conv_nth)
  have "\<not> j \<le> i"
  proof
    assume "j \<le> i"
    then have "xs ! j \<le> xs ! i" using assms(1,2) by (intro sorted_nth_mono) simp_all
    then show False using j assms(4) by simp
  qed
  then have "Suc i \<le> j" by simp
  then have "xs ! Suc i \<le> xs ! j" using assms(1) j(1) by (intro sorted_nth_mono)
  then show ?thesis using j by simp
qed

lemma bps_gap:
  fixes content :: "element list"
  defines "bps \<equiv> slideBreakPoints content"
  defines "bs \<equiv> concat (map (breakAt content) [0..<length content]) @ [length content]"
  assumes i: "Suc i < length bps" and y: "y \<in> set bs" and lt: "bps ! i < y"
  shows "bps ! Suc i \<le> y \<and> bps ! Suc i \<le> length content"
proof -
  have srt: "sorted bs" unfolding bs_def by (rule breaks_sorted)
  have top: "x \<le> length content" if "x \<in> set bs" for x
    using that breaks_le [of x content] by (simp add: bs_def)
  show ?thesis
  proof (cases "findIndex (\<lambda>el. tagName el = ''H1'') content")
    case None
    then have bps: "bps = bs" by (simp add: bps_def slideBreakPoints_def bs_def)
    have "bs ! Suc i \<in> set bs" using i bps by simp
    then show ?thesis using sorted_gap [OF srt _ y] i lt top unfolding bps by simp
  next
    case (Some h)
    then have bps: "bps = h # bs" by (simp add: bps_def slideBreakPoints_def bs_def)
    have mem: "bs ! i \<in> set bs" using i bps by simp
    show ?thesis
    proof (cases i)
      case 0
      obtain b rest where bs: "bs = b # rest" using mem by (cases bs) simp_all
      then show ?thesis using srt y top [of b] 0 by (auto simp: bps)
    next
      case (Suc k)
      then show ?thesis
        using sorted_gap [OF srt _ y, of k] i lt top [OF mem] by (simp add: bps)
    qed
  qed
qed


lemma slideAt_content:
  fixes content :: "element list"
  defines "bps \<equiv> slideBreakPoints content"
  assumes i: "Suc i < length bps" and sl: "sl \<in> set (slideAt content bps i)"
  shows "nodes sl \<noteq> [] \<and> (\<forall>e\<in>set (nodes sl). tagName e \<noteq> ''HR'')"
proof -
  define a where "a = bps ! i"
  define b where "b = bps ! Suc i"
  define sc where "sc = slice content a b"
  from sl have ne: "sc \<noteq> []"
    and single: "\<not> (length sc = 1 \<and> tagName (sc ! 0) = ''HR'')"
    and nodes: "nodes sl = filter (\<lambda>e. tagName e \<noteq> ''HR'') sc"
    by (auto simp: slideAt_def Let_def sc_def a_def b_def split: if_splits)
  from ne have ab: "a < b" and an: "a < length content"
    by (auto simp: sc_def slice_def)
  have first: "sc ! 0 = content ! a"
    using ab an by (simp add: sc_def slice_def)
  have "tagName (content ! a) \<noteq> ''HR''"
  proof
    assume hr: "tagName (content ! a) = ''HR''"
    have bn: "b \<le> length content"
    proof -
      have "length content \<in> set (concat (map (breakAt content) [0..<length content]) @ [length content])"
        by simp
      from bps_gap [OF i [unfolded bps_def] this] an show ?thesis
        by (simp add: a_def b_def bps_def)
    qed
    have "length sc = b - a" using bn by (simp add: sc_def slice_def)
    with single first hr have "Suc a < b" using ab by auto
    with bn have "Suc a < length content" by simp
    from hr_break [OF hr this]
    have "Suc a \<in> set (concat (map (breakAt content) [0..<length content]) @ [length content])"
      by simp
    from bps_gap [OF i [unfolded bps_def] this] have "b \<le> Suc a"
      by (simp add: a_def b_def bps_def)
    with \<open>Suc a < b\<close> show False by simp
  qed
  moreover have "sc ! 0 \<in> set sc" using ne by (intro nth_mem) simp
  ultimately have "filter (\<lambda>e. tagName e \<noteq> ''HR'') sc \<noteq> []"
    using first by (auto simp: filter_empty_conv)
  then show ?thesis using nodes by simp
qed

lemma createSlides_nonempty:
  assumes "sl \<in> set (slides (createSlides s))"
  shows "nodes sl \<noteq> [] \<and> (\<forall>e\<in>set (nodes sl). tagName e \<noteq> ''HR'')"
proof -
  define content where "content = content_of (mainChildren s)"
  from assms obtain i where "i < length (slideBreakPoints content) - 1"
    and "sl \<in> set (slideAt content (slideBreakPoints content) i)"
    by (auto simp: slides_createSlides buildSlides_def content_def simp del: upt_Suc)
  then show ?thesis using slideAt_content [of i content sl] by simp
qed

subsection \<open>Segmentation: the claims\<close>

text \<open>
  C1, counterexample. With content P, H2, P the only break points are 1 and the end
  marker 3, so the paragraph at index 0 is content but is moved into no slide.
\<close>

theorem leading_content_lost:
  "node ''P'' 0 \<in> set (content_of (mainChildren (initial (map Elem leading) []))) \<and>
   node ''P'' 0 \<notin> set (concat (map nodes (slides (createSlides (initial (map Elem leading) [])))))"
  by code_simp

text \<open>
  C1, as it holds of the code. The slides, concatenated in order, are the content from the first break
  point on with the rules left out: the order is kept and nothing in that range is
  duplicated or lost. The first break point is the least element of \<open>slideBreakPoints\<close>
  (the first H1 or H2, or the node after a rule, or the end marker); what precedes it is
  in no slide.
\<close>

theorem slides_cover_from_first_break:
  "concat (map nodes (slides (createSlides s))) =
     filter (\<lambda>el. tagName el \<noteq> ''HR'')
       (drop (Min (set (slideBreakPoints (content_of (mainChildren s)))))
          (content_of (mainChildren s)))"
  by (rule nodes_createSlides)

text \<open>
  C2, counterexample. Two paragraphs and nothing else: the content has no H1, H2 or HR,
  and the number of slides is not one.
\<close>

theorem plain_content_not_one_slide:
  "map tagName (content_of (mainChildren (initial (map Elem plain) []))) = [''P'', ''P''] \<and>
   length (slides (createSlides (initial (map Elem plain) []))) \<noteq> 1"
  by code_simp

text \<open>
  C2, as it holds of the code. For content with no H1, no H2 and no HR the only break point is the end
  marker, the loop of line 51 does not run, and segmentation produces no slide.
\<close>

theorem no_signal_no_slide:
  assumes "\<forall>e\<in>set (content_of (mainChildren s)).
             tagName e \<noteq> ''H1'' \<and> tagName e \<noteq> ''H2'' \<and> tagName e \<noteq> ''HR''"
  shows "slides (createSlides s) = []"
  using assms by (rule createSlides_no_signal)

text \<open>C2, witness: a page of two paragraphs has no slide.\<close>

theorem no_signal_no_slide_witness:
  "map tagName (content_of (mainChildren (initial (map Elem plain) ''#slide-1''))) =
     [''P'', ''P''] \<and>
   slides (createSlides (initial (map Elem plain) ''#slide-1'')) = []"
proof -
  have tags: "map tagName (content_of (mainChildren (initial (map Elem plain) ''#slide-1''))) =
     [''P'', ''P'']"
    by code_simp
  have "\<forall>t\<in>set (map tagName (content_of (mainChildren (initial (map Elem plain) ''#slide-1'')))).
          t \<noteq> ''H1'' \<and> t \<noteq> ''H2'' \<and> t \<noteq> ''HR''"
    unfolding tags by simp
  then have "\<forall>e\<in>set (content_of (mainChildren (initial (map Elem plain) ''#slide-1''))).
      tagName e \<noteq> ''H1'' \<and> tagName e \<noteq> ''H2'' \<and> tagName e \<noteq> ''HR''"
    by simp
  from no_signal_no_slide [OF this] tags show ?thesis by simp
qed

text \<open>
  C6. For the content H1, P, H2, P, HR, P, H2, P the break points are 0, 2, 5, 6 and the
  end marker 8, and the slides are [H1, P], [H2, P], [P], [H2, P], four in all.
\<close>

theorem scenario_slides:
  "slideBreakPoints scenario = [0, 2, 5, 6, 8] \<and>
   content_of (mainChildren (initial (map Elem scenario) [])) = scenario \<and>
   map nodes (slides (createSlides (initial (map Elem scenario) []))) =
     [[node ''H1'' 0, node ''P'' 1], [node ''H2'' 2, node ''P'' 3], [node ''P'' 5],
      [node ''H2'' 6, node ''P'' 7]] \<and>
   length (slides (createSlides (initial (map Elem scenario) []))) = 4"
  by code_simp

text \<open>
  C9. Every slide that segmentation produces holds at least one node and holds no rule;
  in particular no slide is a single rule, and a run of rules yields no slide.
\<close>

theorem slides_nonempty_no_rule:
  "\<forall>sl\<in>set (slides (createSlides s)).
     nodes sl \<noteq> [] \<and> (\<forall>e\<in>set (nodes sl). tagName e \<noteq> ''HR'')"
  using createSlides_nonempty by blast

text \<open>C9, witness: H2, HR, HR, HR, P gives the two slides [H2] and [P].\<close>

theorem slides_nonempty_no_rule_witness:
  "map nodes (slides (createSlides (initial (map Elem rules) []))) =
     [[node ''H2'' 0], [node ''P'' 4]] \<and>
   nodes (hd (slides (createSlides (initial (map Elem rules) [])))) \<noteq> [] \<and>
   list_all (\<lambda>e. tagName e \<noteq> ''HR'')
     (nodes (hd (slides (createSlides (initial (map Elem rules) [])))))"
proof -
  have built: "map nodes (slides (createSlides (initial (map Elem rules) []))) =
     [[node ''H2'' 0], [node ''P'' 4]]"
    by code_simp
  then have "slides (createSlides (initial (map Elem rules) [])) \<noteq> []" by auto
  then have "hd (slides (createSlides (initial (map Elem rules) []))) \<in>
             set (slides (createSlides (initial (map Elem rules) [])))"
    by (rule hd_in_set)
  with slides_nonempty_no_rule [of "initial (map Elem rules) []"] built show ?thesis
    by (simp only: list_all_iff) blast
qed

subsection \<open>Navigation: showSlide, nextSlide, prevSlide\<close>

lemma showSlide_ignored:
  "index < 0 \<or> int (length (slides s)) \<le> index \<Longrightarrow> showSlide s index = s"
  unfolding showSlide_def by simp

lemma slides_showSlide:
  assumes "0 \<le> i" and "i < int (length (slides s))"
  shows "slides (showSlide s i) =
         (map (\<lambda>sl. sl\<lparr>active := False\<rparr>) (slides s))[nat i := (slides s ! nat i)\<lparr>active := True\<rparr>]"
  using assms by (simp add: showSlide_def Let_def)

lemma length_slides_showSlide [simp]: "length (slides (showSlide s i)) = length (slides s)"
  by (simp add: showSlide_def Let_def)

lemma nodes_showSlide [simp]: "map nodes (slides (showSlide s i)) = map nodes (slides s)"
proof (cases "0 \<le> i \<and> i < int (length (slides s))")
  case True
  then show ?thesis
    by (intro nth_equalityI [where xs = "map nodes (slides (showSlide s i))"])
       (auto simp: slides_showSlide nth_list_update)
next
  case False
  then have "i < 0 \<or> int (length (slides s)) \<le> i" by auto
  then show ?thesis by (simp only: showSlide_ignored)
qed

lemma mainChildren_showSlide [simp]: "mainChildren (showSlide s i) = mainChildren s"
  by (simp add: showSlide_def)

lemma active_showSlide:
  assumes "0 \<le> i" and "i < int (length (slides s))"
  shows "map active (slides (showSlide s i)) = map (\<lambda>j. int j = i) [0..<length (slides s)]"
  using assms
  by (intro nth_equalityI [where xs = "map active (slides (showSlide s i))"])
     (auto simp: slides_showSlide nth_list_update)

lemma slides_showSlide_twice:
  assumes "0 \<le> i" and "i < int (length (slides s))"
  shows "slides (showSlide (showSlide s i) i) = slides (showSlide s i)"
proof -
  have "i < int (length (slides (showSlide s i)))" using assms by simp
  from slides_showSlide [OF assms(1) this] assms show ?thesis
    by (intro nth_equalityI [where xs = "slides (showSlide (showSlide s i) i)"])
       (auto simp: slides_showSlide nth_list_update)
qed

lemma showSlide_twice:
  assumes "0 \<le> i" and "i < int (length (slides s))"
  shows "showSlide (showSlide s i) i = showSlide s i"
proof -
  have "showSlide (showSlide s i) i =
        (showSlide s i)\<lparr>slides := slides (showSlide (showSlide s i) i)\<rparr>"
    using assms
    by (simp add: showSlide_def [of "showSlide s i"])
       (simp add: showSlide_def Let_def option.map_comp comp_def)
  then show ?thesis using slides_showSlide_twice [OF assms] by simp
qed


lemma showSlide_shown:
  assumes "0 \<le> i" and "i < int (length (slides s))"
  shows "currentSlide (showSlide s i) = i"
    and "map_option counter (slideNav (showSlide s i)) =
           map_option (\<lambda>_. string_of_nat (nat (i + 1)) @ '' of '' @
                            string_of_nat (length (slides s))) (slideNav s)"
    and "slideDots (showSlide s i) =
           map_option (\<lambda>dots. map (\<lambda>j. int j = i) [0..<length dots]) (slideDots s)"
    and "hash (showSlide s i) = ''#slide-'' @ string_of_nat (nat (i + 1))"
  using assms
  by (simp_all add: showSlide_def set_location_hash_def option.map_comp comp_def)

text \<open>
  C5. For an index below 0 or at least the number of slides, \<open>showSlide\<close> returns the
  state it was given: current index, active markings, counter, dots and fragment are all
  unchanged.
\<close>

theorem showSlide_out_of_range:
  "index < 0 \<or> int (length (slides s)) \<le> index \<Longrightarrow> showSlide s index = s"
  by (rule showSlide_ignored)

text \<open>C5, witness: on the deck of four slides, indices 4 and -1 are ignored.\<close>

theorem showSlide_out_of_range_witness:
  "length (slides deck) = 4 \<and> showSlide deck 4 = deck \<and> showSlide deck (- 1) = deck"
proof -
  have n: "length (slides deck) = 4" by code_simp
  have "showSlide deck 4 = deck"
    by (rule showSlide_out_of_range) (simp add: n)
  moreover have "showSlide deck (- 1) = deck"
    by (rule showSlide_out_of_range) simp
  ultimately show ?thesis using n by simp
qed

text \<open>
  C7. \<open>nextSlide\<close> on the last slide and \<open>prevSlide\<close> on the first slide return the state
  they were given.
\<close>

theorem next_prev_at_ends:
  "(currentSlide s = int (length (slides s)) - 1 \<longrightarrow> nextSlide s = s) \<and>
   (currentSlide s = 0 \<longrightarrow> prevSlide s = s)"
  by (simp add: nextSlide_def prevSlide_def)

text \<open>C7, witness: the deck at its last slide, and at its first.\<close>

theorem next_prev_at_ends_witness:
  "currentSlide (showSlide deck 3) = int (length (slides (showSlide deck 3))) - 1 \<and>
   nextSlide (showSlide deck 3) = showSlide deck 3 \<and>
   currentSlide deck = 0 \<and> prevSlide deck = deck"
proof -
  have last: "currentSlide (showSlide deck 3) = int (length (slides (showSlide deck 3))) - 1"
    by code_simp
  have first: "currentSlide deck = 0" by code_simp
  from next_prev_at_ends [of "showSlide deck 3"] last
  have "nextSlide (showSlide deck 3) = showSlide deck 3" by blast
  moreover from next_prev_at_ends [of deck] first have "prevSlide deck = deck" by blast
  ultimately show ?thesis using last first by blast
qed

text \<open>
  C8. For a valid index \<open>i\<close>, showing slide \<open>i\<close> twice gives the state that showing it once
  gives; in that state the slide at \<open>i\<close> is the only active one, the current index is \<open>i\<close>,
  the counter (when the navigation exists) reads \<open>i + 1\<close> of \<open>N\<close>, among the dots that exist
  exactly dot \<open>i\<close> is active, and the fragment is \<open>slide-\<close> followed by \<open>i + 1\<close>.
\<close>

theorem showSlide_idempotent:
  assumes "0 \<le> i" and "i < int (length (slides s))"
  shows "showSlide (showSlide s i) i = showSlide s i \<and>
         map active (slides (showSlide s i)) = map (\<lambda>j. int j = i) [0..<length (slides s)] \<and>
         currentSlide (showSlide s i) = i \<and>
         map_option counter (slideNav (showSlide s i)) =
           map_option (\<lambda>_. string_of_nat (nat (i + 1)) @ '' of '' @
                            string_of_nat (length (slides s))) (slideNav s) \<and>
         slideDots (showSlide s i) =
           map_option (\<lambda>dots. map (\<lambda>j. int j = i) [0..<length dots]) (slideDots s) \<and>
         hash (showSlide s i) = ''#slide-'' @ string_of_nat (nat (i + 1))"
  using showSlide_twice [OF assms] active_showSlide [OF assms] showSlide_shown [OF assms]
  by blast

text \<open>C8, witness: slide 2 of the deck of four slides.\<close>

theorem showSlide_idempotent_witness:
  "showSlide (showSlide deck 2) 2 = showSlide deck 2 \<and>
   map active (slides (showSlide deck 2)) = [False, False, True, False] \<and>
   currentSlide (showSlide deck 2) = 2 \<and>
   map_option counter (slideNav (showSlide deck 2)) = Some ''3 of 4'' \<and>
   slideDots (showSlide deck 2) = Some [False, False, True, False] \<and>
   hash (showSlide deck 2) = ''#slide-3''"
proof -
  have valid: "(0::int) \<le> 2" "2 < int (length (slides deck))" by code_simp+
  have "map active (slides (showSlide deck 2)) = [False, False, True, False]"
    and "map_option counter (slideNav (showSlide deck 2)) = Some ''3 of 4''"
    and "slideDots (showSlide deck 2) = Some [False, False, True, False]"
    and "hash (showSlide deck 2) = ''#slide-3''"
    by code_simp+
  with showSlide_idempotent [OF valid] show ?thesis by simp
qed

subsection \<open>Matching the fragment\<close>

lemma strip_prefix_Some: "strip_prefix p s = Some r \<longleftrightarrow> s = p @ r"
  by (induction p s rule: strip_prefix.induct) auto

lemma takeWhile_nonempty: "takeWhile P xs \<noteq> [] \<longleftrightarrow> (\<exists>d v. xs = d # v \<and> P d)"
  by (cases xs) auto

lemma head_match:
  "(\<exists>rest. strip_prefix ''slide-'' h = Some rest \<and> takeWhile is_digit rest \<noteq> []) \<longleftrightarrow>
   (\<exists>d. is_digit d \<and> prefix (''slide-'' @ [d]) h)"
proof
  assume "\<exists>rest. strip_prefix ''slide-'' h = Some rest \<and> takeWhile is_digit rest \<noteq> []"
  then obtain d v where "h = ''slide-'' @ d # v" and "is_digit d"
    unfolding strip_prefix_Some takeWhile_nonempty by blast
  then have "prefix (''slide-'' @ [d]) h" by (simp add: prefix_def)
  with \<open>is_digit d\<close> show "\<exists>d. is_digit d \<and> prefix (''slide-'' @ [d]) h" by blast
next
  assume "\<exists>d. is_digit d \<and> prefix (''slide-'' @ [d]) h"
  then obtain d v where d: "is_digit d" and "h = (''slide-'' @ [d]) @ v"
    unfolding prefix_def by blast
  then have "h = ''slide-'' @ d # v" by simp
  then have "strip_prefix ''slide-'' h = Some (d # v)" unfolding strip_prefix_Some .
  with d show "\<exists>rest. strip_prefix ''slide-'' h = Some rest \<and> takeWhile is_digit rest \<noteq> []"
    by simp
qed

lemma slideMatch_Cons:
  "slideMatch (c # cs) =
     (if \<exists>d. is_digit d \<and> prefix (''slide-'' @ [d]) (c # cs)
      then Some (takeWhile is_digit (drop 6 (c # cs)))
      else slideMatch cs)"
proof (cases "\<exists>d. is_digit d \<and> prefix (''slide-'' @ [d]) (c # cs)")
  case True
  then obtain rest where r: "strip_prefix ''slide-'' (c # cs) = Some rest"
    and t: "takeWhile is_digit rest \<noteq> []"
    unfolding head_match [symmetric] by blast
  from r have "c # cs = ''slide-'' @ rest" unfolding strip_prefix_Some .
  then have "drop 6 (c # cs) = rest" by simp
  with True r t show ?thesis by (simp del: strip_prefix.simps)
next
  case False
  then have "\<not> (\<exists>rest. strip_prefix ''slide-'' (c # cs) = Some rest \<and>
                        takeWhile is_digit rest \<noteq> [])"
    unfolding head_match .
  with False show ?thesis
    by (auto simp del: strip_prefix.simps split: option.splits)
qed

lemma slideMatch_None_iff:
  "slideMatch h = None \<longleftrightarrow> (\<forall>d. is_digit d \<longrightarrow> \<not> sublist (''slide-'' @ [d]) h)"
proof (induction h)
  case Nil
  show ?case by simp
next
  case (Cons c cs)
  show ?case
    unfolding slideMatch_Cons sublist_Cons_right using Cons.IH by auto
qed

lemma prefix_append_short:
  "prefix xs (ys @ zs) \<Longrightarrow> length xs \<le> length ys \<Longrightarrow> prefix xs ys"
  by (auto simp: prefix_append)

lemma slideMatch_first:
  assumes "ds \<noteq> []" and "\<forall>c\<in>set ds. is_digit c" and "post = [] \<or> \<not> is_digit (hd post)"
    and "\<forall>d. is_digit d \<longrightarrow> \<not> sublist (''slide-'' @ [d]) (pre @ ''slide-'')"
  shows "slideMatch (pre @ ''slide-'' @ ds @ post) = Some ds"
  using assms(4)
proof (induction pre)
  case Nil
  obtain d v where ds: "ds = d # v" using assms(1) by (cases ds) auto
  have tw: "takeWhile is_digit (ds @ post) = ds"
    using assms(2,3) by (cases post) (simp_all add: takeWhile_append2 takeWhile_eq_all_conv)
  have "is_digit d" using assms(2) ds by simp
  moreover have "prefix (''slide-'' @ [d]) (''slide-'' @ ds @ post)" by (simp add: ds)
  ultimately have "\<exists>d. is_digit d \<and> prefix (''slide-'' @ [d]) (''slide-'' @ ds @ post)"
    by blast
  then have "slideMatch (''slide-'' @ ds @ post) =
             Some (takeWhile is_digit (drop 6 (''slide-'' @ ds @ post)))"
    using slideMatch_Cons [of "CHR ''s''" "''lide-'' @ ds @ post"] by simp
  then show ?case using tw by simp
next
  case (Cons c pre)
  have no_head: "\<not> (\<exists>d. is_digit d \<and> prefix (''slide-'' @ [d]) (c # pre @ ''slide-'' @ ds @ post))"
  proof
    assume "\<exists>d. is_digit d \<and> prefix (''slide-'' @ [d]) (c # pre @ ''slide-'' @ ds @ post)"
    then obtain d where d: "is_digit d"
      and p: "prefix (''slide-'' @ [d]) (((c # pre) @ ''slide-'') @ ds @ post)" by auto
    have "length (''slide-'' @ [d]) \<le> length ((c # pre) @ ''slide-'')" by simp
    with p have "prefix (''slide-'' @ [d]) ((c # pre) @ ''slide-'')"
      by (rule prefix_append_short)
    then have "sublist (''slide-'' @ [d]) ((c # pre) @ ''slide-'')" by (rule prefix_imp_sublist)
    with Cons.prems d show False by blast
  qed
  have "\<forall>d. is_digit d \<longrightarrow> \<not> sublist (''slide-'' @ [d]) (pre @ ''slide-'')"
    using Cons.prems by (auto simp: sublist_Cons_right)
  from Cons.IH [OF this] have "slideMatch (pre @ ''slide-'' @ ds @ post) = Some ds" .
  moreover have "slideMatch (c # pre @ ''slide-'' @ ds @ post) =
                 slideMatch (pre @ ''slide-'' @ ds @ post)"
    using no_head by (simp only: slideMatch_Cons if_False)
  ultimately show ?case by (simp only: append_Cons)
qed


subsection \<open>Entering and leaving presentation mode\<close>

lemma hash_activateBtn [simp]: "hash (activateBtn k s) = hash s"
  by (simp add: activateBtn_def)

lemma slides_activateBtn [simp]: "slides (activateBtn k s) = slides s"
  by (simp add: activateBtn_def)

lemma mainChildren_activateBtn [simp]: "mainChildren (activateBtn k s) = mainChildren s"
  by (simp add: activateBtn_def)

lemma hash_initSlides [simp]: "hash (initSlides s) = hash s"
  by (simp add: initSlides_def createNavigation_def createSlides_def Let_def)

lemma initSlides_built: "slides s \<noteq> [] \<Longrightarrow> initSlides s = s"
  by (simp add: initSlides_def)

lemma slides_initSlides_first:
  "slides s = [] \<Longrightarrow> slides (initSlides s) = slides (createSlides s)"
  by (simp add: initSlides_def createNavigation_def)

lemma buildSlides_inactive: "sl \<in> set (buildSlides content bps) \<Longrightarrow> \<not> active sl"
  by (auto simp: buildSlides_def slideAt_def Let_def simp del: upt_Suc split: if_splits)

lemma initSlides_first_inactive:
  assumes "slides s = []"
  shows "\<not> list_ex active (slides (initSlides s))"
  using buildSlides_inactive
  by (auto simp: slides_initSlides_first [OF assms] slides_createSlides list_ex_iff)

lemma modeBtnClick_slides:
  assumes "k < length (modeBtns s)" and "dataset_mode (modeBtns s ! k) = ''slides''"
  shows "modeBtnClick k s = resolveHash (initSlides ((activateBtn k s)\<lparr>slidesMode := True\<rparr>))"
  using assms by (simp add: modeBtnClick_def Let_def)

lemma modeBtnClick_other:
  assumes "k < length (modeBtns s)" and "dataset_mode (modeBtns s ! k) \<noteq> ''slides''"
  shows "modeBtnClick k s = (activateBtn k s)\<lparr>slidesMode := False, hash := []\<rparr>"
  using assms by (simp add: modeBtnClick_def Let_def set_location_hash_def)

lemma entry_resolution:
  assumes k: "k < length (modeBtns s)" and m: "dataset_mode (modeBtns s ! k) = ''slides''"
  defines "b \<equiv> initSlides ((activateBtn k s)\<lparr>slidesMode := True\<rparr>)"
  defines "r \<equiv> modeBtnClick k s"
  shows "case slideMatch (hash s) of
           None \<Rightarrow>
             r = showSlide b 0 \<and>
             (slides b \<noteq> [] \<longrightarrow>
                currentSlide r = 0 \<and>
                map active (slides r) = map (\<lambda>j. j = 0) [0..<length (slides b)])
         | Some ds \<Rightarrow>
             if 1 \<le> parseInt ds \<and> parseInt ds \<le> length (slides b)
             then r = showSlide b (int (parseInt ds) - 1) \<and>
                  currentSlide r = int (parseInt ds) - 1 \<and>
                  map active (slides r) = map (\<lambda>j. j + 1 = parseInt ds) [0..<length (slides b)]
             else r = b \<and> (slides s = [] \<longrightarrow> \<not> list_ex active (slides r))"
proof -
  have hb: "hash b = hash s" by (simp add: b_def)
  have r: "r = resolveHash b" unfolding r_def b_def using k m by (rule modeBtnClick_slides)
  show ?thesis
  proof (cases "slideMatch (hash s)")
    case None
    then have eq: "r = showSlide b 0" by (simp add: r resolveHash_def hb)
    have "currentSlide r = 0 \<and> map active (slides r) = map (\<lambda>j. j = 0) [0..<length (slides b)]"
      if "slides b \<noteq> []"
    proof -
      have v: "(0::int) \<le> 0" "0 < int (length (slides b))" using that by simp_all
      from showSlide_shown(1) [OF v] active_showSlide [OF v] show ?thesis
        by (simp add: eq)
    qed
    with None eq show ?thesis by simp
  next
    case (Some ds)
    then have eq: "r = showSlide b (int (parseInt ds) - 1)"
      by (simp add: r resolveHash_def hb)
    show ?thesis
    proof (cases "1 \<le> parseInt ds \<and> parseInt ds \<le> length (slides b)")
      case True
      then have v: "0 \<le> int (parseInt ds) - 1" "int (parseInt ds) - 1 < int (length (slides b))"
        by simp_all
      have "(\<lambda>j. int j = int (parseInt ds) - 1) = (\<lambda>j. j + 1 = parseInt ds)"
        using True by (intro ext) auto
      with showSlide_shown(1) [OF v] active_showSlide [OF v] Some True eq show ?thesis
        by simp
    next
      case False
      then have "int (parseInt ds) - 1 < 0 \<or> int (length (slides b)) \<le> int (parseInt ds) - 1"
        by auto
      then have rb: "r = b" unfolding eq by (rule showSlide_ignored)
      have "\<not> list_ex active (slides r)" if "slides s = []"
        unfolding rb b_def using that by (intro initSlides_first_inactive) simp
      with Some False rb show ?thesis by auto
    qed
  qed
qed


text \<open>
  C3, counterexample. The scenario page is entered with the fragment \<open>#slide-9\<close>. The
  fragment matches, 9 is not one of the four slides, and after the click slide 0 is not
  shown: no slide is active and the fragment is still \<open>#slide-9\<close>.
\<close>

theorem out_of_range_fragment_shows_nothing:
  "slideMatch (hash (initial (map Elem scenario) ''#slide-9'')) = Some ''9'' \<and>
   length (slides (modeBtnClick 1 (initial (map Elem scenario) ''#slide-9''))) = 4 \<and>
   map active (slides (modeBtnClick 1 (initial (map Elem scenario) ''#slide-9''))) =
     [False, False, False, False] \<and>
   hash (modeBtnClick 1 (initial (map Elem scenario) ''#slide-9'')) = ''#slide-9''"
  by code_simp

text \<open>
  C3, as it holds of the code. A click on a \<open>slides\<close> button builds slides and navigation if \<open>slides\<close>
  is empty (state \<open>b\<close>) and then resolves the fragment. If the fragment has no match of
  \<open>slide-<digits>\<close>, the result is \<open>showSlide b 0\<close>, which shows slide 0 when there is
  a slide. If it has a match and the number is between 1 and the number of slides, that
  slide (number - 1) is shown. If it has a match and the number is out of range, nothing
  is shown: the result is \<open>b\<close> itself, and on the first entry no slide is active.
\<close>

theorem entry_resolves_fragment:
  assumes "k < length (modeBtns s)" and "dataset_mode (modeBtns s ! k) = ''slides''"
  defines "b \<equiv> initSlides ((activateBtn k s)\<lparr>slidesMode := True\<rparr>)"
  defines "r \<equiv> modeBtnClick k s"
  shows "case slideMatch (hash s) of
           None \<Rightarrow>
             r = showSlide b 0 \<and>
             (slides b \<noteq> [] \<longrightarrow>
                currentSlide r = 0 \<and>
                map active (slides r) = map (\<lambda>j. j = 0) [0..<length (slides b)])
         | Some ds \<Rightarrow>
             if 1 \<le> parseInt ds \<and> parseInt ds \<le> length (slides b)
             then r = showSlide b (int (parseInt ds) - 1) \<and>
                  currentSlide r = int (parseInt ds) - 1 \<and>
                  map active (slides r) = map (\<lambda>j. j + 1 = parseInt ds) [0..<length (slides b)]
             else r = b \<and> (slides s = [] \<longrightarrow> \<not> list_ex active (slides r))"
  unfolding b_def r_def using assms(1,2) by (rule entry_resolution)

text \<open>
  C3, witness: the scenario page entered with \<open>#slide-3\<close> shows slide 2, and entered
  with a fragment that does not match shows slide 0.
\<close>

theorem entry_resolves_fragment_witness:
  "currentSlide (modeBtnClick 1 (initial (map Elem scenario) ''#slide-3'')) = 2 \<and>
   map active (slides (modeBtnClick 1 (initial (map Elem scenario) ''#slide-3''))) =
     [False, False, True, False] \<and>
   currentSlide (modeBtnClick 1 (initial (map Elem scenario) ''docs'')) = 0 \<and>
   map active (slides (modeBtnClick 1 (initial (map Elem scenario) ''docs''))) =
     [True, False, False, False]"
proof -
  let ?p = "initial (map Elem scenario) ''#slide-3''"
  let ?q = "initial (map Elem scenario) ''docs''"
  have k: "1 < length (modeBtns ?p)" "1 < length (modeBtns ?q)"
    and m: "dataset_mode (modeBtns ?p ! 1) = ''slides''" "dataset_mode (modeBtns ?q ! 1) = ''slides''"
    by code_simp+
  have sm: "slideMatch (hash ?p) = Some ''3''" "slideMatch (hash ?q) = None" by code_simp+
  have n: "parseInt ''3'' = 3" by code_simp
  have len: "length (slides (initSlides ((activateBtn 1 ?p)\<lparr>slidesMode := True\<rparr>))) = 4"
    "length (slides (initSlides ((activateBtn 1 ?q)\<lparr>slidesMode := True\<rparr>))) = 4"
    by code_simp+
  have flags: "map (\<lambda>j. j + 1 = 3) [0..<4] = [False, False, True, False]"
    "map (\<lambda>j. j = 0) [0..<4] = [True, False, False, False]"
    by code_simp+
  have v: "1 \<le> parseInt ''3'' \<and>
           parseInt ''3'' \<le> length (slides (initSlides ((activateBtn 1 ?p)\<lparr>slidesMode := True\<rparr>)))"
    unfolding n len by simp
  have w: "slides (initSlides ((activateBtn 1 ?q)\<lparr>slidesMode := True\<rparr>)) \<noteq> []"
    using len(2) by auto
  note P = entry_resolves_fragment [OF k(1) m(1), unfolded sm option.case if_P [OF v]]
  note Q = entry_resolves_fragment [OF k(2) m(2), unfolded sm option.case]
  from P have "currentSlide (modeBtnClick 1 ?p) = int (parseInt ''3'') - 1"
    and "map active (slides (modeBtnClick 1 ?p)) =
         map (\<lambda>j. j + 1 = parseInt ''3'')
           [0..<length (slides (initSlides ((activateBtn 1 ?p)\<lparr>slidesMode := True\<rparr>)))]"
    by blast+
  then have p: "currentSlide (modeBtnClick 1 ?p) = 2"
    "map active (slides (modeBtnClick 1 ?p)) = [False, False, True, False]"
    unfolding n len flags by simp_all
  from Q w have "currentSlide (modeBtnClick 1 ?q) = 0"
    and "map active (slides (modeBtnClick 1 ?q)) =
         map (\<lambda>j. j = 0)
           [0..<length (slides (initSlides ((activateBtn 1 ?q)\<lparr>slidesMode := True\<rparr>)))]"
    by blast+
  then have q: "currentSlide (modeBtnClick 1 ?q) = 0"
    "map active (slides (modeBtnClick 1 ?q)) = [True, False, False, False]"
    unfolding len flags by simp_all
  from p q show ?thesis by blast
qed

text \<open>
  C10. The pattern is not anchored. When the hash is \<open>pre\<close>, then \<open>slide-\<close>, then a
  non-empty run of digits \<open>ds\<close> that ends where \<open>post\<close> begins, and \<open>slide-<digit>\<close> does
  not occur earlier, then whatever \<open>pre\<close> and \<open>post\<close> are the match yields \<open>ds\<close>, and both
  the hashchange listener (in slides mode) and the click on a \<open>slides\<close> button call
  \<open>showSlide\<close> with that number minus one.
\<close>

theorem unanchored_fragment_match:
  assumes "hash s = pre @ ''slide-'' @ ds @ post"
    and "ds \<noteq> []" and "\<forall>c\<in>set ds. is_digit c" and "post = [] \<or> \<not> is_digit (hd post)"
    and "\<forall>d. is_digit d \<longrightarrow> \<not> sublist (''slide-'' @ [d]) (pre @ ''slide-'')"
  shows "slideMatch (hash s) = Some ds \<and>
         (slidesMode s \<longrightarrow> onHashChange s = showSlide s (int (parseInt ds) - 1)) \<and>
         (k < length (modeBtns s) \<and> dataset_mode (modeBtns s ! k) = ''slides'' \<longrightarrow>
            modeBtnClick k s =
              showSlide (initSlides ((activateBtn k s)\<lparr>slidesMode := True\<rparr>))
                (int (parseInt ds) - 1))"
proof -
  have sm: "slideMatch (hash s) = Some ds"
    unfolding assms(1) using assms(2-5) by (rule slideMatch_first)
  then have "onHashChange s = showSlide s (int (parseInt ds) - 1)" if "slidesMode s"
    using that by (simp add: onHashChange_def)
  moreover have "modeBtnClick k s =
      showSlide (initSlides ((activateBtn k s)\<lparr>slidesMode := True\<rparr>)) (int (parseInt ds) - 1)"
    if "k < length (modeBtns s)" and "dataset_mode (modeBtns s ! k) = ''slides''"
    using sm by (simp add: modeBtnClick_slides [OF that] resolveHash_def)
  ultimately show ?thesis using sm by blast
qed

text \<open>C10, witness: the hash \<open>#my-slide-3-note\<close> on the deck leads to slide 2.\<close>

theorem unanchored_fragment_match_witness:
  "slideMatch (hash (deck\<lparr>hash := ''#my-slide-3-note''\<rparr>)) = Some ''3'' \<and>
   onHashChange (deck\<lparr>hash := ''#my-slide-3-note''\<rparr>) =
     showSlide (deck\<lparr>hash := ''#my-slide-3-note''\<rparr>) 2 \<and>
   currentSlide (onHashChange (deck\<lparr>hash := ''#my-slide-3-note''\<rparr>)) = 2"
proof -
  let ?s = "deck\<lparr>hash := ''#my-slide-3-note''\<rparr>"
  have h: "hash ?s = ''#my-'' @ ''slide-'' @ ''3'' @ ''-note''" by simp
  have d: "\<forall>c\<in>set ''3''. is_digit c" by (simp add: is_digit_def)
  have p: "''-note'' = [] \<or> \<not> is_digit (hd ''-note'')" by (simp add: is_digit_def)
  have "slideMatch (''#my-'' @ ''slide-'') = None" by code_simp
  then have f: "\<forall>d. is_digit d \<longrightarrow> \<not> sublist (''slide-'' @ [d]) (''#my-'' @ ''slide-'')"
    unfolding slideMatch_None_iff .
  have mode: "slidesMode ?s" by code_simp
  have n: "int (parseInt ''3'') - 1 = 2" by code_simp
  have c: "currentSlide (showSlide ?s 2) = 2" by code_simp
  from unanchored_fragment_match [OF h _ d p f, of 0] mode n c show ?thesis by simp
qed

lemma step_built:
  assumes "slides s \<noteq> []"
  shows "map nodes (slides (step s e)) = map nodes (slides s) \<and>
         mainChildren (step s e) = mainChildren s"
proof (cases e)
  case (ModeClick k)
  show ?thesis
  proof (cases "k < length (modeBtns s)")
    case False
    then show ?thesis by (simp add: ModeClick modeBtnClick_def)
  next
    case True
    show ?thesis
    proof (cases "dataset_mode (modeBtns s ! k) = ''slides''")
      case slides: True
      have "initSlides ((activateBtn k s)\<lparr>slidesMode := True\<rparr>) =
            (activateBtn k s)\<lparr>slidesMode := True\<rparr>"
        using assms by (intro initSlides_built) simp
      then show ?thesis
        by (simp add: ModeClick modeBtnClick_slides [OF True slides] resolveHash_def
            split: option.splits)
    next
      case False
      then show ?thesis by (simp add: ModeClick modeBtnClick_other [OF True False])
    qed
  qed
next
  case PrevClick
  then show ?thesis by (simp add: prevSlide_def)
next
  case NextClick
  then show ?thesis by (simp add: nextSlide_def)
next
  case (DotClick i)
  then show ?thesis by (simp add: goToSlide_def split: option.splits)
next
  case (FragmentChange h)
  then show ?thesis by (simp add: onHashChange_def split: option.splits)
qed

text \<open>
  Once \<open>slides\<close> is not empty, no sequence of events changes the nodes of the slides,
  their number, or the children of \<open>main\<close>.
\<close>

lemma segmentation_once:
  "slides s \<noteq> [] \<Longrightarrow>
   map nodes (slides (run s evs)) = map nodes (slides s) \<and>
   mainChildren (run s evs) = mainChildren s"
proof (induction evs arbitrary: s)
  case Nil
  show ?case by (simp add: run_def)
next
  case (Cons e evs)
  from step_built [OF Cons.prems, of e]
  have keep: "map nodes (slides (step s e)) = map nodes (slides s)"
    "mainChildren (step s e) = mainChildren s" by simp_all
  have "length (map nodes (slides (step s e))) = length (map nodes (slides s))"
    by (simp only: keep(1))
  with Cons.prems have "slides (step s e) \<noteq> []" by auto
  from Cons.IH [OF this] keep show ?case by (simp add: run_def)
qed

text \<open>
  C4 on a page of two paragraphs. The first click on \<open>slides\<close> produces no slide and
  appends the navigation and the dots to \<open>main\<close>. After \<open>docs\<close> and \<open>slides\<close> again,
  \<open>slides\<close> is still empty, so line 172 runs \<open>createSlides\<close> and \<open>createNavigation\<close> a
  second time: \<open>main\<close> now holds two navigation containers and two dots containers.
\<close>

theorem navigation_rebuilt_on_empty_deck:
  "slides (run (initial (map Elem plain) []) [ModeClick 1]) = [] \<and>
   mainChildren (run (initial (map Elem plain) []) [ModeClick 1]) =
     [Elem (node ''P'' 0), Elem (node ''P'' 1), NavDiv, DotsDiv] \<and>
   mainChildren (run (initial (map Elem plain) []) [ModeClick 1, ModeClick 0, ModeClick 1]) =
     [Elem (node ''P'' 0), Elem (node ''P'' 1), NavDiv, DotsDiv, NavDiv, DotsDiv]"
  by code_simp

subsection \<open>States reached from a fresh page\<close>

lemma wf_showSlide: "wf_state s \<Longrightarrow> wf_state (showSlide s i)"
proof (cases "0 \<le> i \<and> i < int (length (slides s))")
  case True
  assume "wf_state s"
  with True show ?thesis
    by (auto simp: wf_state_def showSlide_def Let_def option.map_comp comp_def
        split: if_splits)
next
  case False
  assume "wf_state s"
  moreover from False have "i < 0 \<or> int (length (slides s)) \<le> i" by auto
  ultimately show ?thesis by (simp only: showSlide_ignored)
qed

lemma wf_initSlides:
  assumes "wf_state s"
  shows "wf_state (initSlides s)"
proof (cases "slides s = []")
  case False
  with assms show ?thesis by (simp add: initSlides_built)
next
  case True
  define new where "new = slides (createSlides s)"
  have main: "mainChildren (createSlides s) =
      filter (\<lambda>c. \<not> is_hr c)
        (filter (\<lambda>c. \<not> moved_into (concat (map nodes new)) c) (mainChildren s) @
         replicate (length new) SlideDiv)"
    by (simp add: createSlides_def Let_def new_def)
  have "SlideDiv \<notin> set (mainChildren s)" using assms True by (simp add: wf_state_def)
  then have "SlideDiv \<notin> set (mainChildren (createSlides s))" if "new = []"
    using that by (simp add: main)
  then show ?thesis
    using True by (auto simp: wf_state_def initSlides_def createNavigation_def new_def)
qed

lemma wf_step: "wf_state s \<Longrightarrow> wf_state (step s e)"
proof (cases e)
  case (ModeClick k)
  assume wf: "wf_state s"
  have act: "wf_state ((activateBtn k s)\<lparr>slidesMode := b\<rparr>)" for b
    using wf by (simp add: wf_state_def activateBtn_def)
  show ?thesis
  proof (cases "k < length (modeBtns s)")
    case False
    with wf show ?thesis by (simp add: ModeClick modeBtnClick_def)
  next
    case True
    show ?thesis
    proof (cases "dataset_mode (modeBtns s ! k) = ''slides''")
      case slides: True
      show ?thesis
        using wf_initSlides [OF act [of True]]
        by (auto simp: ModeClick modeBtnClick_slides [OF True slides] resolveHash_def
            intro: wf_showSlide split: option.splits)
    next
      case False
      then show ?thesis
        using wf
        by (simp add: ModeClick modeBtnClick_other [OF True False] wf_state_def activateBtn_def)
    qed
  qed
next
  case PrevClick
  assume "wf_state s"
  then show ?thesis by (simp add: PrevClick prevSlide_def wf_showSlide)
next
  case NextClick
  assume "wf_state s"
  then show ?thesis by (simp add: NextClick nextSlide_def wf_showSlide)
next
  case (DotClick i)
  assume "wf_state s"
  then show ?thesis by (simp add: DotClick goToSlide_def wf_showSlide split: option.splits)
next
  case (FragmentChange h)
  assume "wf_state s"
  then have "wf_state (s\<lparr>hash := h\<rparr>)" by (simp add: wf_state_def)
  then show ?thesis
    by (simp add: FragmentChange onHashChange_def wf_showSlide split: option.splits)
qed

lemma wf_run: "wf_state s \<Longrightarrow> wf_state (run s evs)"
  unfolding run_def by (induction evs arbitrary: s) (simp_all add: wf_step)

lemma fresh_wf: "fresh s \<Longrightarrow> SlideDiv \<notin> set (mainChildren s) \<Longrightarrow> wf_state s"
  by (simp add: fresh_def wf_state_def)

text \<open>
  On a page that starts fresh, whenever there is a slide to show the navigation container
  and the dots exist, so the counter and the dots of \<open>showSlide\<close> are really updated.
\<close>

lemma navigation_exists:
  assumes "fresh s" and "SlideDiv \<notin> set (mainChildren s)" and "slides (run s evs) \<noteq> []"
  shows "\<exists>n dots. slideNav (run s evs) = Some n \<and> slideDots (run s evs) = Some dots \<and>
                  length dots = min (length (slides (run s evs))) 10"
  using wf_run [OF fresh_wf [OF assms(1,2)], of evs] assms(3)
  by (auto simp: wf_state_def)

end
